theory Spec2Isabelle
  imports Complex_Main "HOL-Library.Word" "HOL-Library.Sublist"
begin

section \<open>Numbers, errors and array reads\<close>

text \<open>
  The scripts under \<^verbatim>\<open>scripts/recording_to_als\<close> compute with JavaScript numbers.
  They are modelled as real numbers: rounding of IEEE doubles is left out. A real number
  is never NaN or infinite, so the one place of the gain lookup where the source could
  divide by zero is an explicit outcome of the model (\<open>NonFinite\<close>), and so is the
  sample time of a header with byte rate zero.

  Exceptions are values of the type \<open>error\<close>:
  \<^item> \<open>UnsupportedFormat\<close>: \<^verbatim>\<open>throw new Error('Unsupported format')\<close>;
  \<^item> \<open>ValueOutOfRange\<close>: the range check of the value in \<^verbatim>\<open>Buffer.writeInt16LE\<close>;
  \<^item> \<open>OffsetOutOfRange\<close>: the range check of the offset in \<^verbatim>\<open>readInt16LE\<close> and
    \<^verbatim>\<open>writeInt16LE\<close>;
  \<^item> \<open>TypeError\<close>: reading a property of \<^verbatim>\<open>undefined\<close>;
  \<^item> \<open>NonFinite\<close>: a division by zero, whose JavaScript value is NaN or an infinity.
\<close>

datatype error = UnsupportedFormat | ValueOutOfRange | OffsetOutOfRange | TypeError | NonFinite

text \<open>
  \<^verbatim>\<open>events[k]\<close> on a JavaScript array: the element when \<open>0 \<le> k < length\<close>, and
  \<^verbatim>\<open>undefined\<close> (here \<open>None\<close>) for every other index, negative ones included.
\<close>

definition js_index :: "'a list \<Rightarrow> int \<Rightarrow> 'a option" where
  "js_index xs k = (if 0 \<le> k \<and> k < int (length xs) then Some (xs ! nat k) else None)"

section \<open>Keyframes and the gain lookup (apply-audio-levels.js)\<close>

text \<open>
  A volume event as index.js pushes it and as apply-audio-levels.js reads it back from
  the \<^verbatim>\<open>.levels\<close> file: \<^verbatim>\<open>{time, beat, value}\<close>. The gain is the field \<open>value\<close>.
\<close>

record timed =
  time :: real
  beat :: real

record keyframe = timed +
  "value" :: real

text \<open>
  \<^verbatim>\<open>bs\<close> is the npm package binary-search, which is not part of the repository. Its
  loop is written out here as the package documents it: it probes the middle of
  \<open>[low, high]\<close>, calls the comparator on the probed element and the needle, moves
  \<open>low\<close> above the probe when the comparator is negative, \<open>high\<close> below it when it is
  positive, returns the probe's index when it is zero, and returns \<^verbatim>\<open>~low\<close>
  (that is \<open>- low - 1\<close>) when the interval is empty.
  The comparator is the one getVolume passes: \<^verbatim>\<open>function (a, b) { return a.time - b }\<close>,
  which throws a TypeError when \<open>a\<close> is \<^verbatim>\<open>undefined\<close>.
\<close>

definition comparator :: "keyframe option \<Rightarrow> real \<Rightarrow> error + real" where
  "comparator a b = (case a of None \<Rightarrow> Inl TypeError | Some e \<Rightarrow> Inr (time e - b))"

function bs_loop :: "keyframe list \<Rightarrow> real \<Rightarrow> int \<Rightarrow> int \<Rightarrow> error + int" where
  "bs_loop haystack needle low high =
     (if low \<le> high then
        (let mid = low + (high - low) div 2 in
         case comparator (js_index haystack mid) needle of
           Inl e \<Rightarrow> Inl e
         | Inr cmp \<Rightarrow>
             if cmp < 0 then bs_loop haystack needle (mid + 1) high
             else if cmp > 0 then bs_loop haystack needle low (mid - 1)
             else Inr mid)
      else Inr (- low - 1))"
  by pat_completeness auto
termination
  by (relation "measure (\<lambda>(haystack, needle, low, high). nat (high - low + 1))") auto

definition bs :: "keyframe list \<Rightarrow> real \<Rightarrow> error + int" where
  "bs haystack needle = bs_loop haystack needle 0 (int (length haystack) - 1)"

text \<open>
  getVolume. \<^verbatim>\<open>events[index].value\<close> throws a TypeError when the element is
  \<^verbatim>\<open>undefined\<close>; \<^verbatim>\<open>before && after\<close> tests that both elements exist. In the
  interpolation branch the source divides by \<open>after.time - before.time\<close>: a zero divisor
  is the outcome \<open>NonFinite\<close>.
\<close>

definition getVolume :: "real \<Rightarrow> keyframe list \<Rightarrow> error + real" where
  "getVolume t events =
     (case bs events t of
        Inl e \<Rightarrow> Inl e
      | Inr index \<Rightarrow>
          if index \<ge> 0 then
            (case js_index events index of
               None \<Rightarrow> Inl TypeError
             | Some e \<Rightarrow> Inr (value e))
          else
            (let before = js_index events ((index * -1) - 2);
                 after = js_index events ((index * -1) - 1)
             in case (before, after) of
                  (Some b, Some a) \<Rightarrow>
                    (let range = value a - value b in
                     if time a - time b = 0 then Inl NonFinite
                     else
                       (let pos = (t - time b) / (time a - time b)
                        in Inr (value b + (range * pos))))
                | (Some b, None) \<Rightarrow> Inr (value b)
                | (None, Some a) \<Rightarrow> Inr (value a)
                | (None, None) \<Rightarrow> Inr 1))"

section \<open>Samples in a buffer (apply-audio-levels.js)\<close>












section \<open>The transform stream (apply-audio-levels.js)\<close>








section \<open>The event resolver (index.js)\<close>

text \<open>
  The repository holds two variants of \<^verbatim>\<open>recording_to_als/index.js\<close>. The first
  multiplies every event time by \<open>recordingTimeMultiplier = 0.9999541021\<close> (to sync the
  K-Mix clock and the Raspberry Pi), sets \<open>tempoMultiplier = 1 / recordingTimeMultiplier\<close>
  and has five tracks. The second takes the event time as it is, sets
  \<open>tempoMultiplier = 1\<close> and has six tracks. The loop body is otherwise the same text; the
  closing entry of the tempo map differs (see \<open>finish\<close>).
\<close>

datatype variant = KMixSync | Plain

definition recordingTimeMultiplier :: real where
  "recordingTimeMultiplier = 0.9999541021"

definition tempoMultiplier :: "variant \<Rightarrow> real" where
  "tempoMultiplier v = (case v of KMixSync \<Rightarrow> 1 / recordingTimeMultiplier | Plain \<Rightarrow> 1)"

definition eventTime :: "variant \<Rightarrow> real \<Rightarrow> real" where
  "eventTime v t0 = (case v of KMixSync \<Rightarrow> t0 * recordingTimeMultiplier | Plain \<Rightarrow> t0)"

text \<open>
  A parsed log line \<^verbatim>\<open>[time, type, ...]\<close>: \<^verbatim>\<open>"tick"\<close>, \<^verbatim>\<open>"channel_volume"\<close> with
  a track index and a raw value, \<^verbatim>\<open>"tempo"\<close> with a bpm value, or any other type
  string, which no branch handles. A line that \<^verbatim>\<open>tryParse\<close> cannot parse is \<open>None\<close>.
\<close>

datatype payload = Tick | ChannelVolume int real | Tempo real | Other

datatype event = Event real payload

text \<open>
  A track of the \<open>tracks\<close> table. The source's field \<open>id\<close> is \<open>id'\<close> here and its field
  \<open>channels\<close> is \<open>sourceChannels\<close>, since \<open>id\<close> and the format's \<open>channels\<close> are taken.
  The file name, which depends on the command line, is left out.
\<close>

record track =
  id' :: nat
  isTempoMaster :: bool
  name :: string
  sourceChannels :: "nat list"
  volumeEvents :: "keyframe list"

text \<open>
  An entry of \<open>tempoEvents\<close>. The closing entry of the second variant can hold
  \<^verbatim>\<open>null\<close> as its tempo, which is \<open>None\<close>; \<open>to_number\<close> is the JavaScript conversion
  of such a value in arithmetic (\<^verbatim>\<open>null\<close> counts as 0).
\<close>

record tempoEvent = timed +
  tempo :: "real option"

definition to_number :: "real option \<Rightarrow> real" where
  "to_number x = (case x of None \<Rightarrow> 0 | Some r \<Rightarrow> r)"

text \<open>
  The script's global variables. \<open>tempo'\<close> is the source's \<open>tempo\<close> and \<open>length'\<close> its
  \<open>length\<close>.
\<close>

record resolver =
  tempo' :: "real option"
  ticks :: "real list"
  duration :: real
  length' :: real
  tracks :: "track list"
  tempoEvents :: "tempoEvent list"
  timeAtLastTempoChange :: real
  beatAtLastTempoChange :: real
  tickDurations :: "real list"

definition initialTracks :: "variant \<Rightarrow> track list" where
  "initialTracks v = (case v of
     KMixSync \<Rightarrow>
       [\<lparr>id' = 8, isTempoMaster = True, name = ''drums'', sourceChannels = [1], volumeEvents = []\<rparr>,
        \<lparr>id' = 9, isTempoMaster = False, name = ''ext'', sourceChannels = [5], volumeEvents = []\<rparr>,
        \<lparr>id' = 10, isTempoMaster = False, name = ''bass'', sourceChannels = [2], volumeEvents = []\<rparr>,
        \<lparr>id' = 11, isTempoMaster = False, name = ''synth'', sourceChannels = [3, 4], volumeEvents = []\<rparr>,
        \<lparr>id' = 12, isTempoMaster = False, name = ''fx'', sourceChannels = [7, 8], volumeEvents = []\<rparr>]
   | Plain \<Rightarrow>
       [\<lparr>id' = 8, isTempoMaster = True, name = ''drums'', sourceChannels = [4], volumeEvents = []\<rparr>,
        \<lparr>id' = 9, isTempoMaster = False, name = ''bass'', sourceChannels = [2], volumeEvents = []\<rparr>,
        \<lparr>id' = 10, isTempoMaster = False, name = ''synth'', sourceChannels = [3], volumeEvents = []\<rparr>,
        \<lparr>id' = 11, isTempoMaster = False, name = ''vox'', sourceChannels = [1], volumeEvents = []\<rparr>,
        \<lparr>id' = 12, isTempoMaster = False, name = ''looper'', sourceChannels = [5, 6], volumeEvents = []\<rparr>,
        \<lparr>id' = 13, isTempoMaster = False, name = ''fx'', sourceChannels = [7, 8], volumeEvents = []\<rparr>])"

definition initial :: "variant \<Rightarrow> resolver" where
  "initial v =
     \<lparr>tempo' = None, ticks = [], duration = 0, length' = 0, tracks = initialTracks v,
      tempoEvents = [], timeAtLastTempoChange = 0, beatAtLastTempoChange = 0,
      tickDurations = []\<rparr>"

text \<open>\<^verbatim>\<open>xs[xs.length - 1]\<close>: the last element, \<^verbatim>\<open>undefined\<close> for the empty array.\<close>

definition js_last :: "'a list \<Rightarrow> 'a option" where
  "js_last xs = js_index xs (int (length xs) - 1)"

text \<open>
  The beat of an event, from the state before the event: the lines from
  \<^verbatim>\<open>var lastTempoEvent\<close> to \<^verbatim>\<open>var beat\<close>. With a last tempo of zero the JavaScript
  \<open>beatDuration\<close> is infinite and both \<open>timeSinceTempoChange / beatDuration\<close> and
  \<open>0.05 / beatDuration\<close> are 0; division by zero of the reals gives 0 for both as well.
\<close>

definition beatDuration :: "resolver \<Rightarrow> real" where
  "beatDuration s =
     (let lastTempoEvent = js_last (tempoEvents s);
          lastTempo = (case lastTempoEvent of Some e \<Rightarrow> tempo e | None \<Rightarrow> Some 120)
      in 60 / to_number lastTempo)"

definition beatAt :: "resolver \<Rightarrow> real \<Rightarrow> real" where
  "beatAt s time' =
     (let timeSinceTempoChange = time' - timeAtLastTempoChange s
      in beatAtLastTempoChange s + (timeSinceTempoChange / beatDuration s))"

text \<open>
  The \<^verbatim>\<open>channel_volume\<close> branch on the volume events of the addressed track: the
  step-hold keyframe when the last event is more than 0.1 s back, then the new keyframe.
\<close>

definition pushVolume :: "keyframe list \<Rightarrow> real \<Rightarrow> real \<Rightarrow> real \<Rightarrow> real \<Rightarrow> keyframe list" where
  "pushVolume events time' beat' beatDuration' raw =
     (let val = raw / 127;
          lastEvent = js_last events;
          held = (case lastEvent of
                    Some e \<Rightarrow>
                      if time' - time e > 0.1
                      then events @ [\<lparr>time = time' - 0.05, beat = beat' - (0.05 / beatDuration'),
                                      value = value e\<rparr>]
                      else events
                  | None \<Rightarrow> events)
      in held @ [\<lparr>time = time', beat = beat', value = val * val * 1.618\<rparr>])"

text \<open>The body of the \<^verbatim>\<open>forEach\<close> for a line that parsed.\<close>

definition step :: "variant \<Rightarrow> resolver \<Rightarrow> event \<Rightarrow> resolver" where
  "step v s ev =
     (case ev of Event t0 type' \<Rightarrow>
        (let time' = eventTime v t0;
             beat' = beatAt s time'
         in case type' of
              Tick \<Rightarrow>
                s\<lparr>duration := time', length' := beat',
                  tickDurations :=
                    (if ticks s \<noteq> [] then tickDurations s @ [time' - last (ticks s)]
                     else tickDurations s),
                  ticks := ticks s @ [time']\<rparr>
            | ChannelVolume idx raw \<Rightarrow>
                (case js_index (tracks s) idx of
                   None \<Rightarrow> s
                 | Some track' \<Rightarrow>
                     s\<lparr>tracks := (tracks s)[nat idx :=
                         track'\<lparr>volumeEvents :=
                           pushVolume (volumeEvents track') time' beat' (beatDuration s) raw\<rparr>]\<rparr>)
            | Tempo bpm \<Rightarrow>
                s\<lparr>tempo' := (if tempo' s = None \<or> tempo' s = Some 0 then Some bpm else tempo' s),
                  timeAtLastTempoChange := time',
                  beatAtLastTempoChange := beat',
                  tempoEvents := tempoEvents s @
                    [\<lparr>time = time', beat = beat', tempo = Some (bpm * tempoMultiplier v)\<rparr>]\<rparr>
            | Other \<Rightarrow> s))"

definition line :: "variant \<Rightarrow> resolver \<Rightarrow> event option \<Rightarrow> resolver" where
  "line v s l = (case l of None \<Rightarrow> s | Some ev \<Rightarrow> step v s ev)"

text \<open>
  The loop over the lines of the event log. What the script does after it with the
  tracks (the exports through sox and the levels file, the project template) is not part
  of the model.
\<close>

definition parseEvents :: "variant \<Rightarrow> event option list \<Rightarrow> resolver" where
  "parseEvents v eventLog = foldl (line v) (initial v) eventLog"

text \<open>
  After the loop, one more entry closes the tempo map. The first variant writes
  \<^verbatim>\<open>tempo: lastTempo * tempoMultiplier\<close>, the second \<^verbatim>\<open>tempo: lastTempo\<close>, where
  \<open>lastTempo\<close> is the tempo of the last entry, or the global \<open>tempo\<close> when there is none.
\<close>

definition finish :: "variant \<Rightarrow> resolver \<Rightarrow> resolver" where
  "finish v s =
     (let lastTempo = (case js_last (tempoEvents s) of Some e \<Rightarrow> tempo e | None \<Rightarrow> tempo' s)
      in s\<lparr>tempoEvents := tempoEvents s @
            [\<lparr>time = duration s, beat = length' s,
              tempo = (case v of
                         KMixSync \<Rightarrow> Some (to_number lastTempo * tempoMultiplier v)
                       | Plain \<Rightarrow> lastTempo)\<rparr>]\<rparr>)"

definition resolve :: "variant \<Rightarrow> event option list \<Rightarrow> resolver" where
  "resolve v eventLog = finish v (parseEvents v eventLog)"

section \<open>Predicates used in the statements\<close>

text \<open>
  \<open>bracket h t l\<close>: \<open>l\<close> is a position of \<open>h\<close> such that the element before it (if any)
  is earlier than \<open>t\<close> and the element at it (if any) is later than \<open>t\<close>.
  \<open>bs_post h t r\<close>: \<open>r\<close> is either the index of an element at time \<open>t\<close>, or the
  complement \<open>- l - 1\<close> of such a position.
\<close>

definition bracket :: "keyframe list \<Rightarrow> real \<Rightarrow> int \<Rightarrow> bool" where
  "bracket h t l \<longleftrightarrow>
     0 \<le> l \<and> l \<le> int (length h) \<and>
     (0 < l \<longrightarrow> time (h ! nat (l - 1)) < t) \<and>
     (l < int (length h) \<longrightarrow> t < time (h ! nat l))"

definition bs_post :: "keyframe list \<Rightarrow> real \<Rightarrow> int \<Rightarrow> bool" where
  "bs_post h t r \<longleftrightarrow>
     (0 \<le> r \<and> r < int (length h) \<and> time (h ! nat r) = t) \<or>
     (r < 0 \<and> bracket h t (- r - 1))"



text \<open>
  \<open>stamps eventLog\<close>: the time stamps of the lines that parse, in log order.
\<close>

definition eventStamp :: "event \<Rightarrow> real" where
  "eventStamp ev = (case ev of Event t0 type' \<Rightarrow> t0)"

definition stamps :: "event option list \<Rightarrow> real list" where
  "stamps eventLog = map eventStamp (List.map_filter (\<lambda>l. l) eventLog)"

text \<open>
  \<open>bounded_ascending T ks\<close>: the keyframes \<open>ks\<close> are in ascending order of time (equal
  times allowed) and none is later than \<open>T\<close>.
\<close>

definition bounded_ascending :: "real \<Rightarrow> keyframe list \<Rightarrow> bool" where
  "bounded_ascending T ks \<longleftrightarrow> sorted (map time ks) \<and> (\<forall>k\<in>set ks. time k \<le> T)"

declare bs_loop.simps [simp del]

section \<open>The binary search and the gain lookup\<close>

text \<open>
  The search keeps \<open>low\<close> and \<open>high\<close> inside the array, and the elements just outside
  \<open>[low, high]\<close> have been probed: the one below is earlier than the needle, the one above
  later. This holds for every array, sorted or not.
\<close>

lemma bs_loop_post:
  assumes "0 \<le> low" "high < int (length h)" "low \<le> high + 1"
    "0 < low \<longrightarrow> time (h ! nat (low - 1)) < t"
    "high + 1 < int (length h) \<longrightarrow> t < time (h ! nat (high + 1))"
  shows "\<exists>r. bs_loop h t low high = Inr r \<and> bs_post h t r"
  using assms
proof (induction h t low high rule: bs_loop.induct)
  case (1 h t low high)
  show ?case
  proof (cases "low \<le> high")
    case False
    with "1.prems" have "low = high + 1" by simp
    with False "1.prems" show ?thesis
      by (subst bs_loop.simps) (auto simp: bs_post_def bracket_def add.commute)
  next
    case True
    define mid where "mid = low + (high - low) div 2"
    have mid: "low \<le> mid" "mid \<le> high" using True by (auto simp: mid_def)
    then have inb: "0 \<le> mid" "mid < int (length h)" using "1.prems" by auto
    then have idx: "js_index h mid = Some (h ! nat mid)" by (simp add: js_index_def)
    consider (lt) "time (h ! nat mid) - t < 0" | (gt) "time (h ! nat mid) - t > 0"
      | (eq) "time (h ! nat mid) = t" by fastforce
    then show ?thesis
    proof cases
      case lt
      have "\<exists>r. bs_loop h t (mid + 1) high = Inr r \<and> bs_post h t r"
        using "1.IH"(1)[OF True mid_def, of "time (h ! nat mid) - t"] idx lt mid inb "1.prems"
        by (simp add: comparator_def)
      then show ?thesis using True idx lt
        by (subst bs_loop.simps) (simp add: comparator_def mid_def Let_def)
    next
      case gt
      have "\<exists>r. bs_loop h t low (mid - 1) = Inr r \<and> bs_post h t r"
        using "1.IH"(2)[OF True mid_def, of "time (h ! nat mid) - t"] idx gt mid inb "1.prems"
        by (simp add: comparator_def)
      then show ?thesis using True idx gt
        by (subst bs_loop.simps) (simp add: comparator_def mid_def Let_def)
    next
      case eq
      then show ?thesis using True idx inb
        by (subst bs_loop.simps) (simp add: comparator_def mid_def[symmetric] Let_def bs_post_def)
    qed
  qed
qed

lemma bs_post: "\<exists>r. bs h t = Inr r \<and> bs_post h t r"
  unfolding bs_def by (rule bs_loop_post) auto


lemma getVolume_found:
  assumes "bs h t = Inr r" "0 \<le> r" "r < int (length h)"
  shows "getVolume t h = Inr (value (h ! nat r))"
  using assms by (simp add: getVolume_def js_index_def)

lemma getVolume_bracket:
  assumes "bs h t = Inr (- l - 1)" "bracket h t l"
  shows "getVolume t h =
     Inr (if 0 < l \<and> l < int (length h) then
            value (h ! nat (l - 1)) +
              (value (h ! nat l) - value (h ! nat (l - 1))) *
                ((t - time (h ! nat (l - 1))) / (time (h ! nat l) - time (h ! nat (l - 1))))
          else if 0 < l then value (h ! nat (l - 1))
          else if l < int (length h) then value (h ! nat l)
          else 1)"
proof -
  have l: "0 \<le> l" "l \<le> int (length h)" using assms(2) by (auto simp: bracket_def)
  have idx: "(- l - 1) * - 1 - 2 = l - 1" "(- l - 1) * - 1 - 1 = l" by simp_all
  have neg: "\<not> 0 \<le> - l - 1" using l by simp
  have pos: "0 < l \<Longrightarrow> l < int (length h) \<Longrightarrow> time (h ! nat l) - time (h ! nat (l - 1)) \<noteq> 0"
    using assms(2) by (auto simp: bracket_def)
  show ?thesis
    unfolding getVolume_def assms(1) sum.case if_not_P[OF neg] idx Let_def
    using l pos by (auto simp: js_index_def)
qed

lemma getVolume_total: "\<exists>g. getVolume t h = Inr g"
proof -
  obtain r where r: "bs h t = Inr r" "bs_post h t r" using bs_post by blast
  show ?thesis
  proof (cases "0 \<le> r")
    case True
    with r show ?thesis by (auto simp: bs_post_def getVolume_found)
  next
    case False
    with r have "bracket h t (- r - 1)" by (auto simp: bs_post_def)
    from getVolume_bracket[of h t "- r - 1"] this r(1) show ?thesis by simp
  qed
qed

lemma strict_nth:
  assumes "sorted_wrt (<) (map time ks)" "i < length ks" "j < length ks"
  shows "time (ks ! i) < time (ks ! j) \<longleftrightarrow> i < j"
proof -
  have *: "\<And>a b. a < b \<Longrightarrow> b < length ks \<Longrightarrow> time (ks ! a) < time (ks ! b)"
    using assms(1) by (simp add: sorted_wrt_map sorted_wrt_iff_nth_less)
  show ?thesis
  proof
    assume lt: "time (ks ! i) < time (ks ! j)"
    show "i < j"
    proof (rule ccontr)
      assume "\<not> i < j"
      then have "j = i \<or> j < i" by auto
      then show False using lt *[of j i] assms(2) by auto
    qed
  next
    assume "i < j" then show "time (ks ! i) < time (ks ! j)" using * assms(3) by simp
  qed
qed

lemma strict_nth_le:
  assumes "sorted_wrt (<) (map time ks)" "i \<le> j" "j < length ks"
  shows "time (ks ! i) \<le> time (ks ! j)"
  using strict_nth[OF assms(1), of i j] assms(2,3) by (cases "i = j") auto


lemma bracket_above:
  assumes s: "sorted_wrt (<) (map time ks)" and b: "bracket ks t l"
    and i: "i < length ks" and lt: "time (ks ! i) < t"
  shows "int i < l"
proof (rule ccontr)
  assume "\<not> int i < l"
  moreover have "0 \<le> l" using b by (simp add: bracket_def)
  ultimately have le: "nat l \<le> i" and "l < int (length ks)" using i by auto
  then have "t < time (ks ! nat l)" using b by (simp add: bracket_def)
  moreover have "time (ks ! nat l) \<le> time (ks ! i)" by (rule strict_nth_le[OF s le i])
  ultimately show False using lt by simp
qed

lemma bracket_below:
  assumes s: "sorted_wrt (<) (map time ks)" and b: "bracket ks t l"
    and j: "j < length ks" and gt: "t < time (ks ! j)"
  shows "l \<le> int j"
proof (rule ccontr)
  assume "\<not> l \<le> int j"
  then have le: "j \<le> nat (l - 1)" and pos: "0 < l" by auto
  have "l \<le> int (length ks)" using b by (simp add: bracket_def)
  then have inb: "nat (l - 1) < length ks" using pos by auto
  have "time (ks ! nat (l - 1)) < t" using b pos by (simp add: bracket_def)
  moreover have "time (ks ! j) \<le> time (ks ! nat (l - 1))" by (rule strict_nth_le[OF s le inb])
  ultimately show False using gt by simp
qed

lemma getVolume_exact:
  assumes s: "sorted_wrt (<) (map time ks)" and i: "i < length ks" and t: "time (ks ! i) = t"
  shows "getVolume t ks = Inr (value (ks ! i))"
proof -
  obtain r where r: "bs ks t = Inr r" "bs_post ks t r" using bs_post by blast
  show ?thesis
  proof (cases "0 \<le> r")
    case True
    with r have rr: "r < int (length ks)" "time (ks ! nat r) = t" by (auto simp: bs_post_def)
    have nr: "nat r < length ks" using True rr(1) by simp
    have "\<not> nat r < i" using strict_nth[OF s nr i] rr(2) t by simp
    moreover have "\<not> i < nat r" using strict_nth[OF s i nr] rr(2) t by simp
    ultimately have "nat r = i" by simp
    then show ?thesis using getVolume_found[OF r(1) True rr(1)] by simp
  next
    case False
    with r have b: "bracket ks t (- r - 1)" by (auto simp: bs_post_def)
    have "\<not> int i < - r - 1"
    proof
      assume "int i < - r - 1"
      moreover have "- r - 1 \<le> int (length ks)" using b by (simp add: bracket_def)
      ultimately have le: "i \<le> nat (- r - 1 - 1)" and pos: "0 < - r - 1"
        and inb: "nat (- r - 1 - 1) < length ks" by auto
      have "time (ks ! nat (- r - 1 - 1)) < t" using b pos by (simp add: bracket_def)
      moreover have "time (ks ! i) \<le> time (ks ! nat (- r - 1 - 1))"
        by (rule strict_nth_le[OF s le inb])
      ultimately show False using t by simp
    qed
    moreover have "int i < - r - 1"
    proof (rule ccontr)
      assume "\<not> int i < - r - 1"
      moreover have "0 \<le> - r - 1" using b by (simp add: bracket_def)
      ultimately have le: "nat (- r - 1) \<le> i" and "- r - 1 < int (length ks)" using i by auto
      then have "t < time (ks ! nat (- r - 1))" using b by (simp add: bracket_def)
      moreover have "time (ks ! nat (- r - 1)) \<le> time (ks ! i)"
        by (rule strict_nth_le[OF s le i])
      ultimately show False using t by simp
    qed
    ultimately show ?thesis by simp
  qed
qed

lemma bs_not_found:
  assumes "\<forall>i<length ks. time (ks ! i) \<noteq> t"
  shows "\<exists>l. bs ks t = Inr (- l - 1) \<and> bracket ks t l"
proof -
  obtain r where r: "bs ks t = Inr r" "bs_post ks t r" using bs_post by blast
  have "\<not> (0 \<le> r \<and> r < int (length ks) \<and> time (ks ! nat r) = t)"
    using assms by (metis nat_less_iff)
  with r have "bracket ks t (- r - 1)" by (auto simp: bs_post_def)
  with r(1) show ?thesis by (intro exI[of _ "- r - 1"]) simp
qed

lemma getVolume_between:
  assumes s: "sorted_wrt (<) (map time ks)" and i: "Suc i < length ks"
    and lo: "time (ks ! i) < t" and hi: "t < time (ks ! Suc i)"
  shows "getVolume t ks =
     Inr (value (ks ! i) +
            (value (ks ! Suc i) - value (ks ! i)) *
              ((t - time (ks ! i)) / (time (ks ! Suc i) - time (ks ! i))))"
proof -
  have i': "i < length ks" using i by simp
  have "\<forall>j<length ks. time (ks ! j) \<noteq> t"
  proof (intro allI impI notI)
    fix j assume j: "j < length ks" and e: "time (ks ! j) = t"
    have "i < j" using strict_nth[OF s i' j] lo e by simp
    moreover have "j < Suc i" using strict_nth[OF s j i] hi e by simp
    ultimately show False by simp
  qed
  then obtain l where l: "bs ks t = Inr (- l - 1)" "bracket ks t l" using bs_not_found by blast
  have "int i < l" by (rule bracket_above[OF s l(2) i' lo])
  moreover have "l \<le> int (Suc i)" by (rule bracket_below[OF s l(2) i hi])
  ultimately have leq: "l = int (Suc i)" by simp
  have n: "nat l = Suc i" "nat (l - 1) = i" using leq by simp_all
  have c: "0 < l \<and> l < int (length ks)" using leq i by simp
  show ?thesis unfolding getVolume_bracket[OF l] if_P[OF c] n by simp
qed

lemma getVolume_after_last:
  assumes s: "sorted_wrt (<) (map time ks)" and ne: "ks \<noteq> []" and lt: "time (last ks) < t"
  shows "getVolume t ks = Inr (value (last ks))"
proof -
  have last: "last ks = ks ! (length ks - 1)" using ne by (simp add: last_conv_nth)
  have n: "length ks - 1 < length ks" using ne by simp
  have "\<forall>j<length ks. time (ks ! j) \<noteq> t"
  proof (intro allI impI notI)
    fix j assume j: "j < length ks" and e: "time (ks ! j) = t"
    then have "j \<le> length ks - 1" by simp
    from strict_nth_le[OF s this n] show False using e lt last by simp
  qed
  then obtain l where l: "bs ks t = Inr (- l - 1)" "bracket ks t l" using bs_not_found by blast
  have "int (length ks - 1) < l" using bracket_above[OF s l(2) n] lt last by simp
  moreover have "l \<le> int (length ks)" using l(2) by (simp add: bracket_def)
  ultimately have "l = int (length ks)" using n by linarith
  then show ?thesis using getVolume_bracket[OF l] ne last by (simp add: nat_diff_distrib')
qed

lemma getVolume_before_first:
  assumes s: "sorted_wrt (<) (map time ks)" and ne: "ks \<noteq> []" and lt: "t < time (hd ks)"
  shows "getVolume t ks = Inr (value (hd ks))"
proof -
  have hd: "hd ks = ks ! 0" using ne by (simp add: hd_conv_nth)
  have z: "0 < length ks" using ne by simp
  have "\<forall>j<length ks. time (ks ! j) \<noteq> t"
  proof (intro allI impI notI)
    fix j assume j: "j < length ks" and e: "time (ks ! j) = t"
    from strict_nth_le[OF s _ j, of 0] show False using e lt hd by simp
  qed
  then obtain l where l: "bs ks t = Inr (- l - 1)" "bracket ks t l" using bs_not_found by blast
  have "l \<le> int 0" using bracket_below[OF s l(2) z] lt hd by simp
  moreover have "0 \<le> l" using l(2) by (simp add: bracket_def)
  ultimately have "l = 0" by simp
  then show ?thesis using getVolume_bracket[OF l] ne hd by simp
qed

lemma getVolume_empty: "getVolume t [] = Inr 1"
  by (simp add: getVolume_def bs_def bs_loop.simps js_index_def)


text \<open>
  Claim C1. For keyframes strictly ascending in time, getVolume returns the keyframe's
  gain when the query time equals a keyframe's time; the linear interpolation
  \<open>before.value + (after.value - before.value) * (t - before.time) / (after.time - before.time)\<close>
  when the time lies strictly between two consecutive keyframes; the last keyframe's gain
  after the last keyframe; the first keyframe's gain before the first; and 1 for the empty
  sequence.
\<close>

theorem getVolume_piecewise:
  assumes "sorted_wrt (<) (map time ks)"
  shows "(\<forall>i<length ks. time (ks ! i) = t \<longrightarrow> getVolume t ks = Inr (value (ks ! i))) \<and>
         (\<forall>i. Suc i < length ks \<and> time (ks ! i) < t \<and> t < time (ks ! Suc i) \<longrightarrow>
            getVolume t ks =
              Inr (value (ks ! i) +
                   (value (ks ! Suc i) - value (ks ! i)) *
                     ((t - time (ks ! i)) / (time (ks ! Suc i) - time (ks ! i))))) \<and>
         (ks \<noteq> [] \<and> time (last ks) < t \<longrightarrow> getVolume t ks = Inr (value (last ks))) \<and>
         (ks \<noteq> [] \<and> t < time (hd ks) \<longrightarrow> getVolume t ks = Inr (value (hd ks))) \<and>
         (ks = [] \<longrightarrow> getVolume t ks = Inr 1)"
  using getVolume_exact[OF assms] getVolume_between[OF assms] getVolume_after_last[OF assms]
    getVolume_before_first[OF assms] getVolume_empty
  by blast

text \<open>
  The keyframes \<open>[(0, 0.2), (1, 0.8)]\<close>: time 0.5 gives 0.5, time -1 gives 0.2, time 2
  gives 0.8, and the exact match at time 1 gives 0.8.
\<close>

theorem getVolume_piecewise_witness:
  "sorted_wrt (<) (map time [\<lparr>time = 0, beat = 0, value = 0.2\<rparr>, \<lparr>time = 1, beat = 2, value = 0.8\<rparr>]) \<and>
   getVolume 0.5 [\<lparr>time = 0, beat = 0, value = 0.2\<rparr>, \<lparr>time = 1, beat = 2, value = 0.8\<rparr>] = Inr 0.5 \<and>
   getVolume (- 1) [\<lparr>time = 0, beat = 0, value = 0.2\<rparr>, \<lparr>time = 1, beat = 2, value = 0.8\<rparr>] = Inr 0.2 \<and>
   getVolume 2 [\<lparr>time = 0, beat = 0, value = 0.2\<rparr>, \<lparr>time = 1, beat = 2, value = 0.8\<rparr>] = Inr 0.8 \<and>
   getVolume 1 [\<lparr>time = 0, beat = 0, value = 0.2\<rparr>, \<lparr>time = 1, beat = 2, value = 0.8\<rparr>] = Inr 0.8"
proof -
  define ks :: "keyframe list"
    where "ks = [\<lparr>time = 0, beat = 0, value = 0.2\<rparr>, \<lparr>time = 1, beat = 2, value = 0.8\<rparr>]"
  have s: "sorted_wrt (<) (map time ks)" by (simp add: ks_def)
  have a: "getVolume 0.5 ks = Inr 0.5"
    using getVolume_piecewise[OF s, of "0.5", THEN conjunct2, THEN conjunct1, rule_format, of 0]
    by (simp add: ks_def)
  have b: "getVolume (- 1) ks = Inr 0.2"
    using getVolume_piecewise[OF s, of "- 1"] by (simp add: ks_def)
  have c: "getVolume 2 ks = Inr 0.8"
    using getVolume_piecewise[OF s, of 2] by (simp add: ks_def)
  have d: "getVolume 1 ks = Inr 0.8"
    using getVolume_piecewise[OF s, of 1, THEN conjunct1, rule_format, of 1]
    by (simp add: ks_def)
  show ?thesis using s a b c d unfolding ks_def by blast
qed

text \<open>
  Claim C10. The gain lookup is total and returns a number: the search returns either an
  index inside the array, or the complement of a position whose neighbours, where they
  exist, have times with a strictly positive difference; so no element is read out of
  bounds without a test and the interpolation never divides by zero. This holds for every
  keyframe array, the strictly increasing ones included.
\<close>

theorem getVolume_safe:
  "(\<exists>g. getVolume t ks = Inr g) \<and>
   (\<exists>r. bs ks t = Inr r \<and>
      (0 \<le> r \<longrightarrow> (\<exists>e. js_index ks r = Some e)) \<and>
      (r < 0 \<longrightarrow>
         (\<forall>b a. js_index ks ((r * - 1) - 2) = Some b \<and> js_index ks ((r * - 1) - 1) = Some a
            \<longrightarrow> 0 < time a - time b)))"
proof -
  obtain r where r: "bs ks t = Inr r" "bs_post ks t r" using bs_post by blast
  have "0 \<le> r \<longrightarrow> (\<exists>e. js_index ks r = Some e)"
    using r(2) by (auto simp: bs_post_def js_index_def)
  moreover have "r < 0 \<longrightarrow>
         (\<forall>b a. js_index ks ((r * - 1) - 2) = Some b \<and> js_index ks ((r * - 1) - 1) = Some a
            \<longrightarrow> 0 < time a - time b)"
  proof (intro impI allI)
    fix b a
    assume neg: "r < 0"
      and ba: "js_index ks ((r * - 1) - 2) = Some b \<and> js_index ks ((r * - 1) - 1) = Some a"
    from neg r(2) have br: "bracket ks t (- r - 1)" by (auto simp: bs_post_def)
    have i: "(r * - 1) - 2 = (- r - 1) - 1" "(r * - 1) - 1 = - r - 1" by simp_all
    from ba have "0 < - r - 1" "- r - 1 < int (length ks)"
      "b = ks ! nat (- r - 1 - 1)" "a = ks ! nat (- r - 1)"
      unfolding i by (auto simp: js_index_def split: if_splits)
    with br show "0 < time a - time b" by (auto simp: bracket_def)
  qed
  ultimately show ?thesis using r(1) getVolume_total by blast
qed

theorem getVolume_safe_witness:
  "bs [\<lparr>time = 0, beat = 0, value = 0.2\<rparr>, \<lparr>time = 1, beat = 2, value = 0.8\<rparr>] 0.5 = Inr (- 2) \<and>
   js_index [\<lparr>time = 0, beat = 0, value = 0.2\<rparr>, \<lparr>time = 1, beat = 2, value = 0.8\<rparr>] ((- 2 * - 1) - 2)
     = Some \<lparr>time = 0, beat = 0, value = 0.2\<rparr> \<and>
   js_index [\<lparr>time = 0, beat = 0, value = 0.2\<rparr>, \<lparr>time = 1, beat = 2, value = 0.8\<rparr>] ((- 2 * - 1) - 1)
     = Some \<lparr>time = 1, beat = 2, value = 0.8\<rparr> \<and>
   (0 :: real) < time \<lparr>time = 1, beat = 2, value = 0.8 :: real\<rparr> - time \<lparr>time = 0, beat = 0, value = 0.2 :: real\<rparr> \<and>
   (\<exists>g. getVolume 0.5 [\<lparr>time = 0, beat = 0, value = 0.2\<rparr>, \<lparr>time = 1, beat = 2, value = 0.8\<rparr>] = Inr g)"
  using getVolume_safe[of "0.5" "[\<lparr>time = 0, beat = 0, value = 0.2\<rparr>, \<lparr>time = 1, beat = 2, value = 0.8\<rparr>]"]
  by (auto simp: bs_def bs_loop.simps js_index_def comparator_def)

section \<open>Reading and writing a sample\<close>


















section \<open>The loops of the transform\<close>




























section \<open>The resolver: one control event\<close>

lemma js_last_Nil: "js_last [] = None"
  by (simp add: js_last_def js_index_def)

lemma js_last_snoc: "js_last (xs @ [x]) = Some x"
  by (simp add: js_last_def js_index_def)

lemma js_last_nonempty: "xs \<noteq> [] \<Longrightarrow> js_last xs = Some (last xs)"
  by (cases xs rule: rev_cases) (simp_all add: js_last_snoc)

lemma js_index_Some:
  "js_index xs k = Some x \<longleftrightarrow> 0 \<le> k \<and> nat k < length xs \<and> x = xs ! nat k"
  by (auto simp: js_index_def)

lemma pushVolume_cases:
  "pushVolume events t b d raw =
     (if events \<noteq> [] \<and> t - time (last events) > 0.1
      then events @ [\<lparr>time = t - 0.05, beat = b - 0.05 / d, value = value (last events)\<rparr>,
                     \<lparr>time = t, beat = b, value = raw / 127 * (raw / 127) * 1.618\<rparr>]
      else events @ [\<lparr>time = t, beat = b, value = raw / 127 * (raw / 127) * 1.618\<rparr>])"
  by (cases events rule: rev_cases) (simp_all add: pushVolume_def js_last_Nil js_last_snoc Let_def)

lemma step_ChannelVolume:
  assumes "js_index (tracks s) idx = Some tr"
  shows "tracks (step v s (Event t0 (ChannelVolume idx raw))) =
     (tracks s)[nat idx := tr\<lparr>volumeEvents :=
        pushVolume (volumeEvents tr) (eventTime v t0) (beatAt s (eventTime v t0)) (beatDuration s) raw\<rparr>]"
  using assms by (simp add: step_def Let_def)

lemma step_ChannelVolume_unknown:
  assumes "js_index (tracks s) idx = None"
  shows "step v s (Event t0 (ChannelVolume idx raw)) = s"
  using assms by (simp add: step_def Let_def)




section \<open>The resolver: order of the keyframes\<close>

lemma eventTime_mono: "a \<le> b \<Longrightarrow> eventTime v a \<le> eventTime v b"
  by (cases v) (simp_all add: eventTime_def recordingTimeMultiplier_def)

lemma bounded_ascending_mono: "bounded_ascending T ks \<Longrightarrow> T \<le> T' \<Longrightarrow> bounded_ascending T' ks"
  by (fastforce simp: bounded_ascending_def)

lemma sorted_time_last:
  assumes "sorted (map time ks)" "k \<in> set ks"
  shows "time k \<le> time (last ks)"
  using assms by (cases ks rule: rev_cases) (auto simp: sorted_append)

lemma pushVolume_bounded_ascending:
  assumes "bounded_ascending T ks" "T \<le> t"
  shows "bounded_ascending t (pushVolume ks t b d raw)"
proof -
  have s: "sorted (map time ks)" and le: "\<forall>k\<in>set ks. time k \<le> t"
    using assms by (auto simp: bounded_ascending_def)
  show ?thesis
  proof (cases "ks \<noteq> [] \<and> t - time (last ks) > 0.1")
    case True
    have "\<forall>k\<in>set ks. time k \<le> t - 0.05"
    proof
      fix k assume "k \<in> set ks"
      then have "time k \<le> time (last ks)" by (rule sorted_time_last[OF s])
      then show "time k \<le> t - 0.05" using True by simp
    qed
    then show ?thesis
      using True s le by (auto simp: pushVolume_cases bounded_ascending_def sorted_append)
  next
    case False
    then show ?thesis
      using s le unfolding pushVolume_cases by (auto simp: bounded_ascending_def sorted_append)
  qed
qed

lemma step_bounded_ascending:
  assumes inv: "\<forall>tr\<in>set (tracks s). bounded_ascending T (volumeEvents tr)"
    and le: "T \<le> eventTime v t0"
  shows "\<forall>tr\<in>set (tracks (step v s (Event t0 type'))). bounded_ascending (eventTime v t0) (volumeEvents tr)"
proof -
  have old: "\<forall>tr\<in>set (tracks s). bounded_ascending (eventTime v t0) (volumeEvents tr)"
    using inv le bounded_ascending_mono by blast
  show ?thesis
  proof (cases type')
    case (ChannelVolume idx raw)
    show ?thesis
    proof (cases "js_index (tracks s) idx")
      case None
      then show ?thesis using old ChannelVolume by (simp add: step_ChannelVolume_unknown)
    next
      case (Some tr)
      then have mem: "tr \<in> set (tracks s)" by (auto simp: js_index_Some)
      let ?new = "tr\<lparr>volumeEvents := pushVolume (volumeEvents tr) (eventTime v t0)
          (beatAt s (eventTime v t0)) (beatDuration s) raw\<rparr>"
      have new: "bounded_ascending (eventTime v t0) (volumeEvents ?new)"
        using pushVolume_bounded_ascending[OF _ le] inv mem by simp
      have "set ((tracks s)[nat idx := ?new]) \<subseteq> insert ?new (set (tracks s))"
        by (rule set_update_subset_insert)
      then show ?thesis
        unfolding ChannelVolume step_ChannelVolume[OF Some] using old new by blast
    qed
  qed (use old in \<open>simp_all add: step_def Let_def\<close>)
qed

lemma stamps_Cons_None: "stamps (None # rest) = stamps rest"
  by (simp add: stamps_def)

lemma stamps_Cons_Some: "stamps (Some (Event t0 type') # rest) = t0 # stamps rest"
  by (simp add: stamps_def eventStamp_def)

lemma foldl_bounded_ascending:
  assumes "\<forall>tr\<in>set (tracks s). bounded_ascending T (volumeEvents tr)"
    "sorted (stamps eventLog)" "\<forall>t\<in>set (stamps eventLog). T \<le> eventTime v t"
  shows "\<forall>tr\<in>set (tracks (foldl (line v) s eventLog)). sorted (map time (volumeEvents tr))"
  using assms
proof (induction eventLog arbitrary: s T)
  case Nil
  then show ?case by (simp add: bounded_ascending_def)
next
  case (Cons l rest)
  show ?case
  proof (cases l)
    case None
    then show ?thesis using Cons.IH[of s T] Cons.prems by (simp add: line_def stamps_Cons_None)
  next
    case (Some ev)
    obtain t0 type' where ev: "ev = Event t0 type'" by (cases ev)
    have st: "stamps (l # rest) = t0 # stamps rest" using Some ev by (simp add: stamps_Cons_Some)
    have le: "T \<le> eventTime v t0" using Cons.prems(3) st by simp
    have inv: "\<forall>tr\<in>set (tracks (step v s (Event t0 type'))).
        bounded_ascending (eventTime v t0) (volumeEvents tr)"
      by (rule step_bounded_ascending[OF Cons.prems(1) le])
    have srt: "sorted (stamps rest)" and ge: "\<forall>t\<in>set (stamps rest). t0 \<le> t"
      using Cons.prems(2) st by simp_all
    have "\<forall>t\<in>set (stamps rest). eventTime v t0 \<le> eventTime v t"
      using ge eventTime_mono by blast
    from Cons.IH[OF inv srt this] show ?thesis using Some ev by (simp add: line_def)
  qed
qed

lemma tracks_finish: "tracks (finish v s) = tracks s"
  by (simp add: finish_def Let_def)

lemma resolve_ascending:
  assumes "sorted (stamps eventLog)"
  shows "\<forall>tr\<in>set (tracks (resolve v eventLog)). sorted (map time (volumeEvents tr))"
proof (cases "stamps eventLog")
  case Nil
  have "\<forall>tr\<in>set (tracks (initial v)). bounded_ascending 0 (volumeEvents tr)"
    by (cases v) (simp_all add: initial_def initialTracks_def bounded_ascending_def)
  from foldl_bounded_ascending[OF this assms] Nil show ?thesis
    by (simp add: resolve_def parseEvents_def tracks_finish)
next
  case (Cons t0 ts)
  have i: "\<forall>tr\<in>set (tracks (initial v)). bounded_ascending (eventTime v t0) (volumeEvents tr)"
    by (cases v) (simp_all add: initial_def initialTracks_def bounded_ascending_def)
  have "\<forall>t\<in>set (stamps eventLog). eventTime v t0 \<le> eventTime v t"
    using assms Cons eventTime_mono by auto
  from foldl_bounded_ascending[OF i assms this] show ?thesis
    by (simp add: resolve_def parseEvents_def tracks_finish)
qed

text \<open>
  Two control events with the same time stamp for the same track leave two keyframes at
  that time: the times of a track's keyframes are not unique.
\<close>

theorem keyframes_not_unique_counterexample:
  "sorted (stamps [Some (Event 0 (ChannelVolume 0 127)), Some (Event 0 (ChannelVolume 0 0))]) \<and>
   volumeEvents (tracks (resolve Plain
      [Some (Event 0 (ChannelVolume 0 127)), Some (Event 0 (ChannelVolume 0 0))]) ! 0) =
     [\<lparr>time = 0, beat = 0, value = 1.618\<rparr>, \<lparr>time = 0, beat = 0, value = 0\<rparr>] \<and>
   \<not> distinct (map time (volumeEvents (tracks (resolve Plain
      [Some (Event 0 (ChannelVolume 0 127)), Some (Event 0 (ChannelVolume 0 0))]) ! 0)))"
  by (simp add: stamps_def eventStamp_def resolve_def finish_def
      parseEvents_def line_def step_def initial_def initialTracks_def js_index_def Let_def
      eventTime_def beatAt_def beatDuration_def js_last_def to_number_def pushVolume_def)

text \<open>
  Claim C5, amended. For a log whose time stamps do not decrease, the keyframes of every
  track are in ascending order of time, equal times allowed: every control event for a
  known track appends at least one keyframe, so nothing is coalesced; and a step-hold
  keyframe is strictly later than the keyframe before it and strictly earlier than the
  keyframe after it.
\<close>

theorem keyframes_ascending:
  assumes "sorted (stamps eventLog)"
  shows "(\<forall>tr\<in>set (tracks (resolve v eventLog)). sorted (map time (volumeEvents tr))) \<and>
         (\<forall>s idx tr t0 raw. js_index (tracks s) idx = Some tr \<longrightarrow>
            length (volumeEvents tr) <
              length (volumeEvents (tracks (step v s (Event t0 (ChannelVolume idx raw))) ! nat idx))) \<and>
         (\<forall>s idx tr t0 raw.
            js_index (tracks s) idx = Some tr \<and> volumeEvents tr \<noteq> [] \<and>
            eventTime v t0 - time (last (volumeEvents tr)) > 0.1 \<longrightarrow>
            (\<exists>held new.
               volumeEvents (tracks (step v s (Event t0 (ChannelVolume idx raw))) ! nat idx) =
                 volumeEvents tr @ [held, new] \<and>
               time (last (volumeEvents tr)) < time held \<and> time held < time new))"
proof (intro conjI allI impI)
  show "\<forall>tr\<in>set (tracks (resolve v eventLog)). sorted (map time (volumeEvents tr))"
    by (rule resolve_ascending[OF assms])
next
  fix s :: resolver and idx tr t0 raw
  assume "js_index (tracks s) idx = Some tr"
  then show "length (volumeEvents tr) <
      length (volumeEvents (tracks (step v s (Event t0 (ChannelVolume idx raw))) ! nat idx))"
    by (simp add: step_ChannelVolume js_index_Some pushVolume_cases)
next
  fix s :: resolver and idx tr t0 raw
  assume a: "js_index (tracks s) idx = Some tr \<and> volumeEvents tr \<noteq> [] \<and>
            eventTime v t0 - time (last (volumeEvents tr)) > 0.1"
  then have j: "js_index (tracks s) idx = Some tr"
    and c: "volumeEvents tr \<noteq> [] \<and> eventTime v t0 - time (last (volumeEvents tr)) > 0.1"
    by simp_all
  have "volumeEvents (tracks (step v s (Event t0 (ChannelVolume idx raw))) ! nat idx) =
      volumeEvents tr @
        [\<lparr>time = eventTime v t0 - 0.05, beat = beatAt s (eventTime v t0) - 0.05 / beatDuration s,
          value = value (last (volumeEvents tr))\<rparr>,
         \<lparr>time = eventTime v t0, beat = beatAt s (eventTime v t0),
          value = raw / 127 * (raw / 127) * 1.618\<rparr>]"
    using j c unfolding step_ChannelVolume[OF j] pushVolume_cases if_P[OF c]
    by (simp add: js_index_Some)
  moreover have "time (last (volumeEvents tr)) < eventTime v t0 - 0.05" using a by simp
  ultimately show "\<exists>held new.
      volumeEvents (tracks (step v s (Event t0 (ChannelVolume idx raw))) ! nat idx) =
        volumeEvents tr @ [held, new] \<and>
      time (last (volumeEvents tr)) < time held \<and> time held < time new"
    by (intro exI[of _ "\<lparr>time = eventTime v t0 - 0.05,
          beat = beatAt s (eventTime v t0) - 0.05 / beatDuration s,
          value = value (last (volumeEvents tr))\<rparr>"]
        exI[of _ "\<lparr>time = eventTime v t0, beat = beatAt s (eventTime v t0),
          value = raw / 127 * (raw / 127) * 1.618\<rparr>"]) simp
qed


theorem keyframes_ascending_witness:
  "sorted (stamps [Some (Event 0 (ChannelVolume 0 127)), Some (Event 0.3 (ChannelVolume 0 0))]) \<and>
   sorted (map time (volumeEvents (tracks (resolve Plain
     [Some (Event 0 (ChannelVolume 0 127)), Some (Event 0.3 (ChannelVolume 0 0))]) ! 0))) \<and>
   length (volumeEvents (tracks (step Plain (initial Plain) (Event 0 (ChannelVolume 0 127))) ! 0)) <
     length (volumeEvents (tracks (step Plain
       (step Plain (initial Plain) (Event 0 (ChannelVolume 0 127)))
       (Event 0.3 (ChannelVolume 0 0))) ! nat 0)) \<and>
   (\<exists>held new.
      volumeEvents (tracks (step Plain
        (step Plain (initial Plain) (Event 0 (ChannelVolume 0 127)))
        (Event 0.3 (ChannelVolume 0 0))) ! nat 0) =
        volumeEvents (tracks (step Plain (initial Plain) (Event 0 (ChannelVolume 0 127))) ! 0)
          @ [held, new] \<and>
      time (last (volumeEvents (tracks (step Plain (initial Plain)
        (Event 0 (ChannelVolume 0 127))) ! 0))) < time held \<and>
      time held < time new)"
proof -
  let ?log = "[Some (Event 0 (ChannelVolume 0 127)), Some (Event 0.3 (ChannelVolume 0 0))]"
  let ?s1 = "step Plain (initial Plain) (Event 0 (ChannelVolume 0 127))"
  have srt: "sorted (stamps ?log)" by (simp add: stamps_def eventStamp_def)
  note th = keyframes_ascending[OF srt, of Plain]
  have len: "length (tracks (resolve Plain ?log)) = 6"
    by (simp add: resolve_def tracks_finish parseEvents_def line_def step_def initial_def
        initialTracks_def js_index_def Let_def)
  then have "tracks (resolve Plain ?log) ! 0 \<in> set (tracks (resolve Plain ?log))"
    by (intro nth_mem) simp
  with th have a: "sorted (map time (volumeEvents (tracks (resolve Plain ?log) ! 0)))" by blast
  have j: "js_index (tracks ?s1) 0 = Some (tracks ?s1 ! 0)"
    by (simp add: step_def initial_def initialTracks_def js_index_def Let_def)
  have e: "volumeEvents (tracks ?s1 ! 0) = [\<lparr>time = 0, beat = 0, value = 1.618\<rparr>]"
    by (simp add: step_def initial_def initialTracks_def js_index_def Let_def
        eventTime_def beatAt_def beatDuration_def js_last_def to_number_def pushVolume_def)
  have g: "volumeEvents (tracks ?s1 ! 0) \<noteq> [] \<and>
      eventTime Plain 0.3 - time (last (volumeEvents (tracks ?s1 ! 0))) > 0.1"
    unfolding e by (simp add: eventTime_def)
  have b: "length (volumeEvents (tracks ?s1 ! 0)) <
      length (volumeEvents (tracks (step Plain ?s1 (Event 0.3 (ChannelVolume 0 0))) ! nat 0))"
    using th j by blast
  have c: "\<exists>held new.
      volumeEvents (tracks (step Plain ?s1 (Event 0.3 (ChannelVolume 0 0))) ! nat 0) =
        volumeEvents (tracks ?s1 ! 0) @ [held, new] \<and>
      time (last (volumeEvents (tracks ?s1 ! 0))) < time held \<and> time held < time new"
    using th j g by blast
  show ?thesis using srt a b c by blast
qed

section \<open>The resolver: causality\<close>

lemma tracks_update_prefix:
  assumes "nat idx < length ts" "prefix (volumeEvents (ts ! nat idx)) ks"
  shows "list_all2 prefix (map volumeEvents ts)
           (map volumeEvents (ts[nat idx := (ts ! nat idx)\<lparr>volumeEvents := ks\<rparr>]))"
  using assms by (auto simp: list_all2_conv_all_nth nth_list_update)

lemma pushVolume_prefix: "prefix ks (pushVolume ks t b d raw)"
  by (simp add: pushVolume_cases)

lemma line_prefix:
  "list_all2 prefix (map volumeEvents (tracks s)) (map volumeEvents (tracks (line v s l)))"
proof (cases l)
  case None
  then show ?thesis by (simp add: line_def list_all2_conv_all_nth)
next
  case (Some ev)
  obtain t0 type' where ev: "ev = Event t0 type'" by (cases ev)
  show ?thesis
  proof (cases type')
    case (ChannelVolume idx raw)
    show ?thesis
    proof (cases "js_index (tracks s) idx")
      case None
      then show ?thesis
        using Some ev ChannelVolume
        by (simp add: line_def step_ChannelVolume_unknown list_all2_conv_all_nth)
    next
      case (Some tr)
      then have i: "nat idx < length (tracks s)" and tr: "tr = tracks s ! nat idx"
        by (simp_all add: js_index_Some)
      show ?thesis
        using \<open>l = Some ev\<close> ev ChannelVolume
          tracks_update_prefix[OF i pushVolume_prefix,
            of "eventTime v t0" "beatAt s (eventTime v t0)" "beatDuration s" raw]
        by (simp add: line_def step_ChannelVolume[OF Some] tr)
    qed
  qed (use Some ev in \<open>simp_all add: line_def step_def Let_def list_all2_conv_all_nth\<close>)
qed

lemma list_all2_prefix_trans:
  assumes "list_all2 prefix xs ys" "list_all2 prefix ys zs"
  shows "list_all2 prefix xs (zs :: 'a list list)"
  using assms by (rule list_all2_trans[rotated]) (rule prefix_order.trans)

lemma foldl_prefix:
  "list_all2 prefix (map volumeEvents (tracks s))
     (map volumeEvents (tracks (foldl (line v) s eventLog)))"
proof (induction eventLog arbitrary: s)
  case Nil
  then show ?case by (simp add: list_all2_conv_all_nth)
next
  case (Cons l rest)
  show ?case
    using list_all2_prefix_trans[OF line_prefix[of s v l] Cons.IH[of "line v s l"]] by simp
qed

lemma parseEvents_append:
  "parseEvents v (L @ M) = foldl (line v) (parseEvents v L) M"
  by (simp add: parseEvents_def)

lemma resolve_prefix:
  "list_all2 prefix (map volumeEvents (tracks (resolve v L)))
     (map volumeEvents (tracks (resolve v (L @ M))))"
  by (simp add: resolve_def tracks_finish parseEvents_append foldl_prefix)

lemma pushVolume_last:
  "last (pushVolume ks t b d raw) = \<lparr>time = t, beat = b, value = raw / 127 * (raw / 127) * 1.618\<rparr>"
  by (simp add: pushVolume_cases)

lemma pushVolume_nonempty: "pushVolume ks t b d raw \<noteq> []"
  by (simp add: pushVolume_cases)

text \<open>
  Claim C7. The keyframes that a log \<open>L\<close> produces for a track are an initial segment of
  the keyframes that any extension \<open>L @ M\<close> produces for it. The keyframe of a control
  change that follows \<open>L\<close> has the beat computed from the state after \<open>L\<close>, and it stands
  unchanged at the same position whatever events \<open>M\<close> follow it.
\<close>

theorem causal_keyframes:
  "list_all2 prefix (map volumeEvents (tracks (resolve v L)))
     (map volumeEvents (tracks (resolve v (L @ M)))) \<and>
   (js_index (tracks (parseEvents v L)) idx = Some tr \<longrightarrow>
      volumeEvents (tracks (resolve v (L @ [Some (Event t0 (ChannelVolume idx raw))] @ M)) ! nat idx)
        ! (length (volumeEvents
             (tracks (resolve v (L @ [Some (Event t0 (ChannelVolume idx raw))])) ! nat idx)) - 1)
      = \<lparr>time = eventTime v t0, beat = beatAt (parseEvents v L) (eventTime v t0),
         value = raw / 127 * (raw / 127) * 1.618\<rparr>)"
proof (intro conjI impI)
  show "list_all2 prefix (map volumeEvents (tracks (resolve v L)))
     (map volumeEvents (tracks (resolve v (L @ M))))"
    by (rule resolve_prefix)
next
  assume j: "js_index (tracks (parseEvents v L)) idx = Some tr"
  let ?cc = "Some (Event t0 (ChannelVolume idx raw))"
  let ?s = "parseEvents v L"
  let ?ks = "pushVolume (volumeEvents tr) (eventTime v t0) (beatAt ?s (eventTime v t0))
      (beatDuration ?s) raw"
  have i: "nat idx < length (tracks ?s)" using j by (simp add: js_index_Some)
  have one: "tracks (resolve v (L @ [?cc])) = (tracks ?s)[nat idx := tr\<lparr>volumeEvents := ?ks\<rparr>]"
    by (simp add: resolve_def tracks_finish parseEvents_append line_def step_ChannelVolume[OF j])
  then have ks: "volumeEvents (tracks (resolve v (L @ [?cc])) ! nat idx) = ?ks" using i by simp
  have len: "length (tracks (resolve v (L @ [?cc]))) = length (tracks ?s)" using one by simp
  have "list_all2 prefix (map volumeEvents (tracks (resolve v (L @ [?cc]))))
     (map volumeEvents (tracks (resolve v ((L @ [?cc]) @ M))))"
    by (rule resolve_prefix)
  then have "prefix ?ks (volumeEvents (tracks (resolve v (L @ [?cc] @ M)) ! nat idx))"
    using i len ks by (auto simp: list_all2_conv_all_nth)
  then obtain zs where zs: "volumeEvents (tracks (resolve v (L @ [?cc] @ M)) ! nat idx) = ?ks @ zs"
    by (auto simp: prefix_def)
  have "(?ks @ zs) ! (length ?ks - 1) = last ?ks"
    using pushVolume_nonempty[of "volumeEvents tr"]
    by (simp add: nth_append last_conv_nth)
  then show "volumeEvents (tracks (resolve v (L @ [?cc] @ M)) ! nat idx)
        ! (length (volumeEvents (tracks (resolve v (L @ [?cc])) ! nat idx)) - 1)
      = \<lparr>time = eventTime v t0, beat = beatAt (parseEvents v L) (eventTime v t0),
         value = raw / 127 * (raw / 127) * 1.618\<rparr>"
    unfolding zs ks by (simp add: pushVolume_last)
qed


theorem causal_keyframes_witness:
  "js_index (tracks (parseEvents Plain [Some (Event 0 (Tempo 120))])) 0 =
     Some \<lparr>id' = 8, isTempoMaster = True, name = ''drums'', sourceChannels = [4],
       volumeEvents = []\<rparr> \<and>
   volumeEvents (tracks (resolve Plain
       ([Some (Event 0 (Tempo 120))] @ [Some (Event 1 (ChannelVolume 0 127))] @
        [Some (Event 2 (Tempo 60)), Some (Event 3 Tick)])) ! nat 0)
     ! (length (volumeEvents (tracks (resolve Plain
         ([Some (Event 0 (Tempo 120))] @ [Some (Event 1 (ChannelVolume 0 127))])) ! nat 0)) - 1)
     = \<lparr>time = 1, beat = 2, value = 1.618\<rparr>"
proof -
  let ?L = "[Some (Event 0 (Tempo 120))]"
  let ?tr = "\<lparr>id' = 8, isTempoMaster = True, name = ''drums'', sourceChannels = [4],
       volumeEvents = []\<rparr>"
  have j: "js_index (tracks (parseEvents Plain ?L)) 0 = Some ?tr"
    by (simp add: parseEvents_def line_def step_def initial_def initialTracks_def js_index_def
        Let_def)
  have b: "beatAt (parseEvents Plain ?L) 1 = 2"
    by (simp add: parseEvents_def line_def step_def initial_def js_index_def Let_def
        eventTime_def beatAt_def beatDuration_def js_last_def to_number_def tempoMultiplier_def)
  have e: "eventTime Plain 1 = 1" by (simp add: eventTime_def)
  have "volumeEvents (tracks (resolve Plain
       (?L @ [Some (Event 1 (ChannelVolume 0 127))] @
        [Some (Event 2 (Tempo 60)), Some (Event 3 Tick)])) ! nat 0)
     ! (length (volumeEvents (tracks (resolve Plain
         (?L @ [Some (Event 1 (ChannelVolume 0 127))])) ! nat 0)) - 1)
     = \<lparr>time = eventTime Plain 1, beat = beatAt (parseEvents Plain ?L) (eventTime Plain 1),
         value = 127 / 127 * (127 / 127) * 1.618\<rparr>"
    using causal_keyframes[of Plain ?L "[Some (Event 2 (Tempo 60)), Some (Event 3 Tick)]" 0 ?tr 1 127] j
    by blast
  then show ?thesis using j by (simp add: b e)
qed

section \<open>The resolver: closing the tempo map\<close>

text \<open>
  \<open>finish\<close> appends exactly one entry, at the duration and the beat of the last tick. In
  the second variant its tempo is the tempo of the last entry (or the global \<open>tempo\<close>,
  which is \<^verbatim>\<open>null\<close>, when there is none). In the first variant that value is multiplied
  by \<open>tempoMultiplier\<close> once more. With no tempo event the beats are computed at 120 bpm
  and the global \<open>tempo\<close> stays \<^verbatim>\<open>null\<close>.
\<close>

lemma finish_tempoEvents:
  "tempoEvents (finish v s) = tempoEvents s @
     [\<lparr>time = duration s, beat = length' s,
       tempo = (case v of
                  KMixSync \<Rightarrow>
                    Some (to_number (if tempoEvents s = [] then tempo' s
                                     else tempo (last (tempoEvents s))) * tempoMultiplier v)
                | Plain \<Rightarrow>
                    (if tempoEvents s = [] then tempo' s else tempo (last (tempoEvents s))))\<rparr>]"
  by (cases "tempoEvents s = []"; cases v)
    (simp_all add: finish_def Let_def js_last_Nil js_last_nonempty)

lemma closing_entry_plain:
  "tempoEvents (resolve Plain eventLog) = tempoEvents (parseEvents Plain eventLog) @
     [\<lparr>time = duration (parseEvents Plain eventLog), beat = length' (parseEvents Plain eventLog),
       tempo = (if tempoEvents (parseEvents Plain eventLog) = []
                then tempo' (parseEvents Plain eventLog)
                else tempo (last (tempoEvents (parseEvents Plain eventLog))))\<rparr>]"
  by (simp add: resolve_def finish_tempoEvents)

lemma closing_entry_kmix:
  "tempoEvents (resolve KMixSync eventLog) = tempoEvents (parseEvents KMixSync eventLog) @
     [\<lparr>time = duration (parseEvents KMixSync eventLog),
       beat = length' (parseEvents KMixSync eventLog),
       tempo = Some (to_number (if tempoEvents (parseEvents KMixSync eventLog) = []
                                then tempo' (parseEvents KMixSync eventLog)
                                else tempo (last (tempoEvents (parseEvents KMixSync eventLog))))
                     * tempoMultiplier KMixSync)\<rparr>]"
  by (simp add: resolve_def finish_tempoEvents)

lemma parseEvents_snoc: "parseEvents v (eventLog @ [l]) = line v (parseEvents v eventLog) l"
  by (simp add: parseEvents_def)

lemma no_tempo_event:
  assumes "\<forall>t0 bpm. Some (Event t0 (Tempo bpm)) \<notin> set eventLog"
  shows "tempo' (parseEvents v eventLog) = None \<and> tempoEvents (parseEvents v eventLog) = [] \<and>
         timeAtLastTempoChange (parseEvents v eventLog) = 0 \<and>
         beatAtLastTempoChange (parseEvents v eventLog) = 0"
  using assms
proof (induction eventLog rule: rev_induct)
  case Nil
  then show ?case by (simp add: parseEvents_def initial_def)
next
  case (snoc l eventLog)
  then have IH: "tempo' (parseEvents v eventLog) = None \<and> tempoEvents (parseEvents v eventLog) = [] \<and>
         timeAtLastTempoChange (parseEvents v eventLog) = 0 \<and>
         beatAtLastTempoChange (parseEvents v eventLog) = 0" by simp
  show ?case
  proof (cases l)
    case None
    then show ?thesis using IH by (simp add: parseEvents_snoc line_def)
  next
    case (Some ev)
    obtain t0 type' where ev: "ev = Event t0 type'" by (cases ev)
    have "\<forall>bpm. type' \<noteq> Tempo bpm" using snoc.prems Some ev by auto
    then show ?thesis using IH Some ev
      by (cases type')
        (auto simp: parseEvents_snoc line_def step_def Let_def split: option.splits)
  qed
qed

lemma default_tempo:
  assumes "\<forall>t0 bpm. Some (Event t0 (Tempo bpm)) \<notin> set eventLog"
  shows "beatAt (parseEvents v eventLog) t = t / (60 / 120)"
    and "tempo' (resolve v eventLog) = None"
  using no_tempo_event[OF assms, of v]
  by (simp_all add: beatAt_def beatDuration_def js_last_Nil to_number_def resolve_def finish_def
      Let_def)

text \<open>
  Claim C4. In the first variant, for the log of a tempo event of 120 bpm and a tick, the
  tempo map holds the entry \<open>120 * tempoMultiplier\<close> and the closing entry
  \<open>120 * tempoMultiplier * tempoMultiplier\<close>: the closing tempo is neither the tempo seen
  nor the tempo recorded for it. In the second variant both entries hold 120.
\<close>

theorem closing_tempo_scaled_twice:
  "map tempo (tempoEvents (resolve KMixSync [Some (Event 0 (Tempo 120)), Some (Event 1 Tick)])) =
     [Some (120 * tempoMultiplier KMixSync),
      Some (120 * tempoMultiplier KMixSync * tempoMultiplier KMixSync)] \<and>
   120 * tempoMultiplier KMixSync * tempoMultiplier KMixSync \<noteq> 120 * tempoMultiplier KMixSync \<and>
   120 * tempoMultiplier KMixSync * tempoMultiplier KMixSync \<noteq> 120 \<and>
   map tempo (tempoEvents (resolve Plain [Some (Event 0 (Tempo 120)), Some (Event 1 Tick)])) =
     [Some 120, Some 120]"
proof -
  have k: "map tempo (tempoEvents (resolve KMixSync [Some (Event 0 (Tempo 120)), Some (Event 1 Tick)])) =
     [Some (120 * tempoMultiplier KMixSync),
      Some (120 * tempoMultiplier KMixSync * tempoMultiplier KMixSync)]"
    by (simp add: closing_entry_kmix parseEvents_def line_def step_def initial_def Let_def
        to_number_def)
  have p: "map tempo (tempoEvents (resolve Plain [Some (Event 0 (Tempo 120)), Some (Event 1 Tick)])) =
     [Some 120, Some 120]"
    by (simp add: closing_entry_plain parseEvents_def line_def step_def initial_def Let_def
        tempoMultiplier_def)
  have n: "120 * tempoMultiplier KMixSync * tempoMultiplier KMixSync \<noteq> 120 * tempoMultiplier KMixSync"
    "120 * tempoMultiplier KMixSync * tempoMultiplier KMixSync \<noteq> 120"
    by (simp_all add: tempoMultiplier_def recordingTimeMultiplier_def)
  show ?thesis using k p n by blast
qed

end
